theory Spec2Isabelle
  imports Main
begin

section \<open>The run collapser of \<^verbatim>\<open>workers/re_uniq.py\<close>\<close>

text \<open>
  The source is one function:
  \<^verbatim>\<open>
  def main(input_buf, output_buf, args):
      found = -2
      matcher = re.compile(args.pattern)
      for i, line in enumerate(input_buf):
          if matcher.search(line) and (i - found != 1):
              output_buf.write(line)
              found = i
              continue
          if matcher.search(line) and (i - found == 1):
              found = i
              continue

          output_buf.write(line)
  \<close>
  The regular expression library is not part of the repository, so it is a parameter:
  \<open>re_compile\<close> either raises (an invalid pattern) or returns the matcher, and the
  matcher's \<open>search\<close> is a predicate on lines (the truth value of the match object).
\<close>

subsection \<open>State\<close>

text \<open>
  The loop's state: the cursor \<open>found\<close> (a Python integer) and the lines written to
  \<open>output_buf\<close> by this call, in order. Two ghost fields record the trace and decide
  nothing: \<open>written_at\<close> holds the index \<open>i\<close> of every line written,
  \<open>searched_at\<close> the index \<open>i\<close> of every call of \<open>matcher.search\<close>.
\<close>

record state =
  found :: int
  output_buf :: "string list"
  written_at :: "nat list"
  searched_at :: "nat list"

datatype error = ReError

definition init_state :: state where
  "init_state = \<lparr>found = - 2, output_buf = [], written_at = [], searched_at = []\<rparr>"

subsection \<open>The loop body\<close>

definition search :: "(string \<Rightarrow> bool) \<Rightarrow> nat \<Rightarrow> string \<Rightarrow> state \<Rightarrow> bool \<times> state" where
  "search matcher i line s = (matcher line, s\<lparr>searched_at := searched_at s @ [i]\<rparr>)"

definition write_line :: "nat \<Rightarrow> string \<Rightarrow> state \<Rightarrow> state" where
  "write_line i line s = s\<lparr>output_buf := output_buf s @ [line], written_at := written_at s @ [i]\<rparr>"

text \<open>
  One iteration. Each \<^verbatim>\<open>if\<close> calls \<open>search\<close> first and looks at the cursor only when
  the call was true (\<^verbatim>\<open>and\<close> short-circuits); the first branch taken ends the
  iteration (\<^verbatim>\<open>continue\<close>).
\<close>

definition body :: "(string \<Rightarrow> bool) \<Rightarrow> nat \<Rightarrow> string \<Rightarrow> state \<Rightarrow> state" where
  "body matcher i line s0 =
     (case search matcher i line s0 of (c1, s1) \<Rightarrow>
        if c1 \<and> int i - found s1 \<noteq> 1 then (write_line i line s1)\<lparr>found := int i\<rparr>
        else
          (case search matcher i line s1 of (c2, s2) \<Rightarrow>
             if c2 \<and> int i - found s2 = 1 then s2\<lparr>found := int i\<rparr>
             else write_line i line s2))"

subsection \<open>The loop and the function\<close>

fun for_loop :: "(string \<Rightarrow> bool) \<Rightarrow> nat \<Rightarrow> string list \<Rightarrow> state \<Rightarrow> state" where
  "for_loop matcher i [] s = s"
| "for_loop matcher i (line # rest) s = for_loop matcher (Suc i) rest (body matcher i line s)"

text \<open>The pass over \<open>input_buf\<close> once the matcher exists: the loop from index 0.\<close>

definition filter_pass :: "(string \<Rightarrow> bool) \<Rightarrow> string list \<Rightarrow> state" where
  "filter_pass matcher input_buf = for_loop matcher 0 input_buf init_state"

definition main ::
  "(string \<Rightarrow> error + (string \<Rightarrow> bool)) \<Rightarrow> string list \<Rightarrow> string \<Rightarrow> error + state" where
  "main re_compile input_buf pattern =
     (case re_compile pattern of
        Inl e \<Rightarrow> Inl e
      | Inr matcher \<Rightarrow> Inr (filter_pass matcher input_buf))"

text \<open>
  A concrete matcher for the examples: what \<^verbatim>\<open>re.compile("X").search\<close> decides, a line
  matches when the character X occurs in it.
\<close>

definition search_X :: "string \<Rightarrow> bool" where
  "search_X line = (CHR ''X'' \<in> set line)"

subsection \<open>Indices and runs\<close>

text \<open>
  Line \<open>i\<close> starts a run when it matches and is not preceded by a matching line.
  A maximal run is a non-empty interval \<open>a..<b\<close> of matching lines that cannot be
  extended on either side.
\<close>

definition starts_run :: "(string \<Rightarrow> bool) \<Rightarrow> string list \<Rightarrow> nat \<Rightarrow> bool" where
  "starts_run m xs i = (m (xs ! i) \<and> (i = 0 \<or> \<not> m (xs ! (i - 1))))"

definition kept :: "(string \<Rightarrow> bool) \<Rightarrow> string list \<Rightarrow> nat \<Rightarrow> bool" where
  "kept m xs i = (starts_run m xs i \<or> \<not> m (xs ! i))"

definition maximal_run :: "(string \<Rightarrow> bool) \<Rightarrow> string list \<Rightarrow> nat \<Rightarrow> nat \<Rightarrow> bool" where
  "maximal_run m xs a b =
     (a < b \<and> b \<le> length xs \<and> (\<forall>k\<in>{a..<b}. m (xs ! k)) \<and>
      (a = 0 \<or> \<not> m (xs ! (a - 1))) \<and> (b = length xs \<or> \<not> m (xs ! b)))"

section \<open>The body, case by case\<close>

lemma body_match_new:
  "m line \<Longrightarrow> int i - found s \<noteq> 1 \<Longrightarrow>
   body m i line s = s\<lparr>found := int i, output_buf := output_buf s @ [line],
     written_at := written_at s @ [i], searched_at := searched_at s @ [i]\<rparr>"
  by (simp add: body_def search_def write_line_def)

lemma body_match_adjacent:
  "m line \<Longrightarrow> int i - found s = 1 \<Longrightarrow>
   body m i line s = s\<lparr>found := int i, searched_at := searched_at s @ [i, i]\<rparr>"
  by (simp add: body_def search_def write_line_def)

lemma body_no_match:
  "\<not> m line \<Longrightarrow>
   body m i line s = s\<lparr>output_buf := output_buf s @ [line],
     written_at := written_at s @ [i], searched_at := searched_at s @ [i, i]\<rparr>"
  by (simp add: body_def search_def write_line_def)

lemma for_loop_append:
  "for_loop m i (xs @ ys) s = for_loop m (i + length xs) ys (for_loop m i xs s)"
  by (induction xs arbitrary: i s) simp_all

lemma filter_pass_Nil: "filter_pass m [] = init_state"
  by (simp add: filter_pass_def)

lemma filter_pass_snoc:
  "filter_pass m (xs @ [x]) = body m (length xs) x (filter_pass m xs)"
  by (simp add: filter_pass_def for_loop_append)

section \<open>The state after a prefix\<close>

text \<open>
  The pass is a left fold, so the state after \<open>xs @ [x]\<close> is one iteration on the state
  after \<open>xs\<close>: the facts below are proved from the end of the input.
\<close>

lemma found_lt: "found (filter_pass m xs) < int (length xs)"
proof (induction xs rule: rev_induct)
  case Nil
  show ?case by (simp add: filter_pass_Nil init_state_def)
next
  case (snoc x xs)
  show ?case
  proof (cases "m x")
    case True
    then show ?thesis
      by (cases "int (length xs) - found (filter_pass m xs) = 1")
         (simp_all add: filter_pass_snoc body_match_new body_match_adjacent)
  next
    case False
    with snoc show ?thesis by (simp add: filter_pass_snoc body_no_match)
  qed
qed

lemma found_snoc: "found (filter_pass m (xs @ [x])) = (if m x then int (length xs) else found (filter_pass m xs))"
  by (cases "m x"; cases "int (length xs) - found (filter_pass m xs) = 1")
     (simp_all add: filter_pass_snoc body_match_new body_match_adjacent body_no_match)

lemma adjacent_iff:
  "(int (length xs) - found (filter_pass m xs) = 1) = (xs \<noteq> [] \<and> m (last xs))"
proof (cases xs rule: rev_cases)
  case Nil
  then show ?thesis by (simp add: filter_pass_Nil init_state_def)
next
  case (snoc ys y)
  have "found (filter_pass m ys) < int (length ys)" by (rule found_lt)
  then show ?thesis using snoc by (simp add: found_snoc)
qed

lemma kept_snoc_old: "i < length xs \<Longrightarrow> kept m (xs @ [x]) i = kept m xs i"
  by (auto simp: kept_def starts_run_def nth_append)

lemma kept_snoc_new:
  "kept m (xs @ [x]) (length xs) = (\<not> m x \<or> \<not> (xs \<noteq> [] \<and> m (last xs)))"
  by (cases xs rule: rev_cases) (auto simp: kept_def starts_run_def nth_append)

lemma written_at_snoc:
  "written_at (filter_pass m (xs @ [x])) =
     written_at (filter_pass m xs) @ (if kept m (xs @ [x]) (length xs) then [length xs] else [])"
  unfolding kept_snoc_new adjacent_iff [symmetric]
  by (cases "m x"; cases "int (length xs) - found (filter_pass m xs) = 1")
     (simp_all add: filter_pass_snoc body_match_new body_match_adjacent body_no_match)

lemma written_at_eq: "written_at (filter_pass m xs) = filter (kept m xs) [0..<length xs]"
proof (induction xs rule: rev_induct)
  case Nil
  show ?case by (simp add: filter_pass_Nil init_state_def)
next
  case (snoc x xs)
  have "filter (kept m (xs @ [x])) [0..<length xs] = filter (kept m xs) [0..<length xs]"
    by (rule filter_cong) (simp_all add: kept_snoc_old)
  with snoc show ?case by (simp add: written_at_snoc)
qed

lemma output_buf_snoc:
  "output_buf (filter_pass m (xs @ [x])) =
     output_buf (filter_pass m xs) @ (if kept m (xs @ [x]) (length xs) then [x] else [])"
  unfolding kept_snoc_new adjacent_iff [symmetric]
  by (cases "m x"; cases "int (length xs) - found (filter_pass m xs) = 1")
     (simp_all add: filter_pass_snoc body_match_new body_match_adjacent body_no_match)

lemma output_buf_eq: "output_buf (filter_pass m xs) = map ((!) xs) (written_at (filter_pass m xs))"
proof (induction xs rule: rev_induct)
  case Nil
  show ?case by (simp add: filter_pass_Nil init_state_def)
next
  case (snoc x xs)
  have "map ((!) (xs @ [x])) (written_at (filter_pass m xs)) = map ((!) xs) (written_at (filter_pass m xs))"
    by (rule map_cong) (auto simp: written_at_eq nth_append)
  with snoc show ?case by (simp add: written_at_snoc output_buf_snoc)
qed

lemma filter_eq_upt: "a < n \<Longrightarrow> filter (\<lambda>i. i = a) [0..<n] = [a]"
proof (induction n)
  case 0
  then show ?case by simp
next
  case (Suc n)
  show ?case
  proof (cases "a = n")
    case True
    have "filter (\<lambda>i. i = n) [0..<n] = []"
      by (simp add: filter_empty_conv)
    with True show ?thesis by simp
  next
    case False
    with Suc show ?thesis by simp
  qed
qed

lemma kept_in_run:
  assumes "maximal_run m xs a b" "i < length xs"
  shows "(kept m xs i \<and> a \<le> i \<and> i < b) = (i = a)"
proof (cases "a \<le> i \<and> i < b")
  case False
  with assms show ?thesis by (auto simp: maximal_run_def)
next
  case True
  then have mi: "m (xs ! i)" using assms by (simp add: maximal_run_def)
  show ?thesis
  proof (cases "i = a")
    case True
    with assms mi show ?thesis by (auto simp: maximal_run_def kept_def starts_run_def)
  next
    case False
    with True have "a \<le> i - 1" "i - 1 < b" "i \<noteq> 0" by arith+
    then have "m (xs ! (i - 1))" using assms by (simp add: maximal_run_def)
    with mi False \<open>i \<noteq> 0\<close> show ?thesis by (simp add: kept_def starts_run_def)
  qed
qed

lemma count_written_at:
  "count_list (written_at (filter_pass m xs)) i = (if i < length xs \<and> kept m xs i then 1 else 0)"
proof -
  have "filter ((=) i) (filter (kept m xs) [0..<length xs]) =
        filter (\<lambda>k. k = i \<and> kept m xs i) [0..<length xs]"
    by (simp, rule filter_cong) auto
  also have "\<dots> = (if kept m xs i then filter (\<lambda>k. k = i) [0..<length xs] else [])"
    by simp
  also have "\<dots> = (if i < length xs \<and> kept m xs i then [i] else [])"
    by (cases "i < length xs") (simp_all add: filter_eq_upt filter_empty_conv)
  finally show ?thesis
    by (simp add: count_list_eq_length_filter written_at_eq)
qed

lemma filter_nonmatching:
  "filter (\<lambda>l. \<not> m l) (output_buf (filter_pass m xs)) = filter (\<lambda>l. \<not> m l) xs"
proof -
  have "filter (\<lambda>i. kept m xs i \<and> \<not> m (xs ! i)) [0..<length xs] =
        filter (\<lambda>i. \<not> m (xs ! i)) [0..<length xs]"
    by (rule filter_cong) (auto simp: kept_def)
  then have "filter (\<lambda>l. \<not> m l) (output_buf (filter_pass m xs)) =
        map ((!) xs) (filter (\<lambda>i. \<not> m (xs ! i)) [0..<length xs])"
    by (simp add: output_buf_eq written_at_eq filter_map comp_def)
  also have "\<dots> = filter (\<lambda>l. \<not> m l) (map ((!) xs) [0..<length xs])"
    by (simp add: filter_map comp_def)
  finally show ?thesis by (simp add: map_nth)
qed

lemma for_loop_no_match:
  "\<forall>line\<in>set ys. \<not> m line \<Longrightarrow> output_buf (for_loop m i ys s) = output_buf s @ ys"
  by (induction ys arbitrary: i s) (simp_all add: body_no_match)

lemma for_loop_all_match:
  "\<forall>line\<in>set ys. m line \<Longrightarrow> int i - found s = 1 \<Longrightarrow>
   output_buf (for_loop m i ys s) = output_buf s"
  by (induction ys arbitrary: i s) (simp_all add: body_match_adjacent)

lemma starts_run_snoc_old: "i < length xs \<Longrightarrow> starts_run m (xs @ [x]) i = starts_run m xs i"
  by (auto simp: starts_run_def nth_append)

lemma starts_run_snoc_new:
  "starts_run m (xs @ [x]) (length xs) = (m x \<and> \<not> (xs \<noteq> [] \<and> m (last xs)))"
  by (cases xs rule: rev_cases) (auto simp: starts_run_def nth_append)

lemma searched_at_snoc:
  "searched_at (filter_pass m (xs @ [x])) =
     searched_at (filter_pass m xs) @
       (if starts_run m (xs @ [x]) (length xs) then [length xs] else [length xs, length xs])"
  unfolding starts_run_snoc_new adjacent_iff [symmetric]
  by (cases "m x"; cases "int (length xs) - found (filter_pass m xs) = 1")
     (simp_all add: filter_pass_snoc body_match_new body_match_adjacent body_no_match)

lemma count_searched_at:
  "count_list (searched_at (filter_pass m xs)) i =
     (if i < length xs then (if starts_run m xs i then 1 else 2) else 0)"
proof (induction xs rule: rev_induct)
  case Nil
  show ?case by (simp add: filter_pass_Nil init_state_def)
next
  case (snoc x xs)
  consider "i < length xs" | "i = length xs" | "length xs < i" by arith
  then show ?case
  proof cases
    case 1
    with snoc show ?thesis by (simp add: searched_at_snoc starts_run_snoc_old)
  next
    case 2
    with snoc show ?thesis by (simp add: searched_at_snoc)
  next
    case 3
    with snoc show ?thesis by (simp add: searched_at_snoc)
  qed
qed

lemma length_searched_at: "length (searched_at (filter_pass m xs)) \<le> 2 * length xs"
  by (induction xs rule: rev_induct) (simp_all add: filter_pass_Nil init_state_def searched_at_snoc)

lemma length_output_buf: "length (output_buf (filter_pass m xs)) \<le> length xs"
  using length_filter_le [of "kept m xs" "[0..<length xs]"]
  by (simp add: output_buf_eq written_at_eq)

lemma last_output_buf:
  "xs \<noteq> [] \<Longrightarrow> \<not> m (last xs) \<Longrightarrow>
   output_buf (filter_pass m xs) \<noteq> [] \<and> last (output_buf (filter_pass m xs)) = last xs"
  by (cases xs rule: rev_cases) (simp_all add: output_buf_snoc kept_snoc_new)

lemma successively_output_buf:
  "successively (\<lambda>a b. \<not> (m a \<and> m b)) (output_buf (filter_pass m xs))"
proof (induction xs rule: rev_induct)
  case Nil
  show ?case by (simp add: filter_pass_Nil init_state_def)
next
  case (snoc x xs)
  show ?case
  proof (cases "kept m (xs @ [x]) (length xs)")
    case False
    with snoc show ?thesis by (simp add: output_buf_snoc)
  next
    case True
    have "output_buf (filter_pass m xs) = [] \<or> \<not> (m (last (output_buf (filter_pass m xs))) \<and> m x)"
    proof (cases "m x")
      case False
      then show ?thesis by simp
    next
      case mx: True
      with True have "xs = [] \<or> \<not> m (last xs)" by (auto simp: kept_snoc_new)
      then show ?thesis
      proof
        assume "xs = []"
        then show ?thesis by (simp add: filter_pass_Nil init_state_def)
      next
        assume n: "\<not> m (last xs)"
        show ?thesis
        proof (cases "xs = []")
          case True
          then show ?thesis by (simp add: filter_pass_Nil init_state_def)
        next
          case False
          from last_output_buf [of xs m, OF False n] n show ?thesis by simp
        qed
      qed
    qed
    with snoc True show ?thesis
      by (simp add: output_buf_snoc successively_append_iff)
  qed
qed

lemma for_loop_successively:
  "successively (\<lambda>a b. \<not> (m a \<and> m b)) ys \<Longrightarrow> found s < int i \<Longrightarrow>
   (ys \<noteq> [] \<and> m (hd ys) \<longrightarrow> int i - found s \<noteq> 1) \<Longrightarrow>
   output_buf (for_loop m i ys s) = output_buf s @ ys"
proof (induction ys arbitrary: i s)
  case Nil
  show ?case by simp
next
  case (Cons y ys)
  from Cons.prems(1) have suc: "successively (\<lambda>a b. \<not> (m a \<and> m b)) ys"
    and hd: "ys = [] \<or> \<not> (m y \<and> m (hd ys))"
    by (auto simp: successively_Cons)
  show ?case
  proof (cases "m y")
    case True
    with Cons.prems have gap: "int i - found s \<noteq> 1" by simp
    let ?s = "body m i y s"
    have b: "?s = s\<lparr>found := int i, output_buf := output_buf s @ [y],
       written_at := written_at s @ [i], searched_at := searched_at s @ [i]\<rparr>"
      using True gap by (rule body_match_new)
    have "output_buf (for_loop m (Suc i) ys ?s) = output_buf ?s @ ys"
      using suc hd True by (intro Cons.IH) (auto simp: b)
    then show ?thesis by (simp add: b)
  next
    case False
    let ?s = "body m i y s"
    have b: "?s = s\<lparr>output_buf := output_buf s @ [y],
       written_at := written_at s @ [i], searched_at := searched_at s @ [i, i]\<rparr>"
      using False by (rule body_no_match)
    have "output_buf (for_loop m (Suc i) ys ?s) = output_buf ?s @ ys"
      using suc Cons.prems(2) by (intro Cons.IH) (auto simp: b)
    then show ?thesis by (simp add: b)
  qed
qed

lemma filter_pass_take:
  "j \<le> length xs \<Longrightarrow> filter_pass m xs = for_loop m j (drop j xs) (filter_pass m (take j xs))"
  using for_loop_append [of m 0 "take j xs" "drop j xs" init_state]
  by (simp add: filter_pass_def)

lemma written_at_iff: "i \<in> set (written_at (filter_pass m xs)) \<longleftrightarrow> i < length xs \<and> kept m xs i"
  by (auto simp: written_at_eq)

lemma gap_at_run_start:
  assumes "j < length xs" and "starts_run m xs j"
  shows "2 \<le> int j - found (filter_pass m (take j xs))"
proof -
  let ?ys = "take j xs"
  have len: "length ?ys = j" using assms(1) by simp
  have "\<not> (?ys \<noteq> [] \<and> m (last ?ys))"
  proof (cases "j = 0")
    case True
    then show ?thesis by simp
  next
    case False
    then have "?ys \<noteq> []" using assms(1) by auto
    then have "last ?ys = xs ! (j - 1)"
      using False len by (simp add: last_conv_nth)
    with assms(2) False show ?thesis by (simp add: starts_run_def)
  qed
  then have "int j - found (filter_pass m ?ys) \<noteq> 1"
    using adjacent_iff [of ?ys m] len by simp
  moreover have "found (filter_pass m ?ys) < int j"
    using found_lt [of m ?ys] len by simp
  ultimately show ?thesis by arith
qed

section \<open>Claims\<close>

text \<open>
  C6. For the empty input sequence and any predicate, the pass writes nothing: the
  output sequence is empty.
\<close>

theorem empty_input_empty_output: "output_buf (filter_pass matcher []) = []"
  by (simp add: filter_pass_def init_state_def)

text \<open>
  C1. For every maximal run \<open>a..<b\<close> of matching lines, the indices written that lie in
  the run are exactly \<open>[a]\<close>: one line of the run is written, and it is the first. The
  output is the input read at the indices written, these are strictly increasing and
  inside the input, so the lines written keep their order in the input.
\<close>

theorem run_collapse:
  assumes "maximal_run m xs a b"
  shows "filter (\<lambda>i. a \<le> i \<and> i < b) (written_at (filter_pass m xs)) = [a] \<and>
         output_buf (filter_pass m xs) = map ((!) xs) (written_at (filter_pass m xs)) \<and>
         sorted_wrt (<) (written_at (filter_pass m xs)) \<and>
         set (written_at (filter_pass m xs)) \<subseteq> {0..<length xs}"
proof -
  have a: "a < length xs" using assms by (simp add: maximal_run_def)
  have "filter (\<lambda>i. kept m xs i \<and> a \<le> i \<and> i < b) [0..<length xs] =
        filter (\<lambda>i. i = a) [0..<length xs]"
    by (rule filter_cong) (simp_all add: kept_in_run [OF assms])
  then have 1: "filter (\<lambda>i. a \<le> i \<and> i < b) (written_at (filter_pass m xs)) = [a]"
    by (simp add: written_at_eq filter_eq_upt [OF a])
  have 3: "sorted_wrt (<) (written_at (filter_pass m xs))"
    by (simp add: written_at_eq sorted_wrt_filter)
  have 4: "set (written_at (filter_pass m xs)) \<subseteq> {0..<length xs}"
    by (auto simp: written_at_eq)
  from 1 3 4 output_buf_eq show ?thesis by simp
qed

theorem run_collapse_witness:
  "maximal_run search_X [''a'', ''X1'', ''X2'', ''b'', ''X3''] 1 3 \<and>
   filter (\<lambda>i. 1 \<le> i \<and> i < 3)
     (written_at (filter_pass search_X [''a'', ''X1'', ''X2'', ''b'', ''X3''])) = [1] \<and>
   output_buf (filter_pass search_X [''a'', ''X1'', ''X2'', ''b'', ''X3'']) =
     [''a'', ''X1'', ''b'', ''X3'']"
proof -
  have h: "maximal_run search_X [''a'', ''X1'', ''X2'', ''b'', ''X3''] 1 3"
    by code_simp
  have w: "written_at (filter_pass search_X [''a'', ''X1'', ''X2'', ''b'', ''X3'']) = [0, 1, 3, 4]"
    by (simp add: filter_pass_def init_state_def body_def search_def write_line_def search_X_def)
  from run_collapse [OF h] h show ?thesis by (simp add: w)
qed

text \<open>
  C2. Every line on which the predicate is false is written exactly once (its index
  occurs once among the indices written, and the output is the input read there), and
  the non-matching lines of the output are the non-matching lines of the input, in the
  same order.
\<close>

theorem nonmatching_pass_through:
  assumes "i < length xs" and "\<not> m (xs ! i)"
  shows "count_list (written_at (filter_pass m xs)) i = 1 \<and>
         output_buf (filter_pass m xs) = map ((!) xs) (written_at (filter_pass m xs)) \<and>
         filter (\<lambda>l. \<not> m l) (output_buf (filter_pass m xs)) = filter (\<lambda>l. \<not> m l) xs"
proof -
  have "count_list (written_at (filter_pass m xs)) i = 1"
    using assms by (simp add: count_written_at kept_def)
  with output_buf_eq [of m xs] filter_nonmatching [of m xs] show ?thesis
    by blast
qed

theorem nonmatching_pass_through_witness:
  "(3::nat) < length [''a'', ''X1'', ''X2'', ''b'', ''X3''] \<and>
   \<not> search_X ([''a'', ''X1'', ''X2'', ''b'', ''X3''] ! 3) \<and>
   count_list (written_at (filter_pass search_X [''a'', ''X1'', ''X2'', ''b'', ''X3''])) 3 = 1 \<and>
   filter (\<lambda>l. \<not> search_X l) (output_buf (filter_pass search_X [''a'', ''X1'', ''X2'', ''b'', ''X3'']))
     = [''a'', ''b'']"
proof -
  have h1: "(3::nat) < length [''a'', ''X1'', ''X2'', ''b'', ''X3'']" by simp
  have h2: "\<not> search_X ([''a'', ''X1'', ''X2'', ''b'', ''X3''] ! 3)"
    by (simp add: search_X_def)
  note t = nonmatching_pass_through [of 3 "[''a'', ''X1'', ''X2'', ''b'', ''X3'']" search_X, OF h1 h2]
  from t have c: "count_list (written_at (filter_pass search_X [''a'', ''X1'', ''X2'', ''b'', ''X3''])) 3 = 1"
    by blast
  from t have "filter (\<lambda>l. \<not> search_X l) (output_buf (filter_pass search_X [''a'', ''X1'', ''X2'', ''b'', ''X3'']))
      = filter (\<lambda>l. \<not> search_X l) [''a'', ''X1'', ''X2'', ''b'', ''X3'']"
    by blast
  also have "\<dots> = [''a'', ''b'']"
    by (simp add: search_X_def)
  finally show ?thesis using h1 h2 c by blast
qed

text \<open>
  C4. If the predicate is false on every line of the input, the output sequence equals
  the input sequence.
\<close>

theorem no_match_identity:
  "\<forall>line\<in>set input_buf. \<not> matcher line \<Longrightarrow> output_buf (filter_pass matcher input_buf) = input_buf"
  by (simp add: filter_pass_def for_loop_no_match init_state_def)

theorem no_match_identity_witness:
  "\<not> search_X ''a'' \<and> \<not> search_X ''b'' \<and> \<not> search_X ''c'' \<and>
   output_buf (filter_pass search_X [''a'', ''b'', ''c'']) = [''a'', ''b'', ''c'']"
proof -
  have h: "\<forall>line\<in>set [''a'', ''b'', ''c'']. \<not> search_X line"
    by (simp add: search_X_def)
  from no_match_identity [OF h] h show ?thesis by simp
qed

text \<open>
  C5. If the input is not empty and the predicate is true on every line, the output has
  exactly one element, the first input line.
\<close>

theorem all_match_first_only:
  "\<forall>line\<in>set (x # rest). matcher line \<Longrightarrow> output_buf (filter_pass matcher (x # rest)) = [x]"
  by (simp add: filter_pass_def for_loop_all_match init_state_def body_match_new)

theorem all_match_first_only_witness:
  "search_X ''X'' \<and> output_buf (filter_pass search_X [''X'', ''X'', ''X'']) = [''X'']"
proof -
  have h: "\<forall>line\<in>set (''X'' # [''X'', ''X'']). search_X line"
    by (simp add: search_X_def)
  from all_match_first_only [OF h] h show ?thesis by simp
qed

text \<open>
  C7, as the code has it. After any prefix \<open>xs\<close> of the input, \<open>found\<close> is the sentinel
  \<open>-2\<close> when no line of the prefix matches, and otherwise the index of the last matching
  line of the prefix, whether that line was written or skipped: the second branch of the
  loop advances \<open>found\<close> without writing.
\<close>

theorem found_is_last_match:
  "found (filter_pass m xs) =
     (case filter (\<lambda>i. m (xs ! i)) [0..<length xs] of [] \<Rightarrow> - 2 | k # ks \<Rightarrow> int (last (k # ks)))"
proof (induction xs rule: rev_induct)
  case Nil
  show ?case by (simp add: filter_pass_Nil init_state_def)
next
  case (snoc x xs)
  have "filter (\<lambda>i. m ((xs @ [x]) ! i)) [0..<length xs] = filter (\<lambda>i. m (xs ! i)) [0..<length xs]"
    by (rule filter_cong) (simp_all add: nth_append)
  with snoc show ?case
    by (simp add: found_snoc split: list.splits)
qed

text \<open>
  C7 as stated fails on two matching lines: after both, \<open>found\<close> is 1, which is not
  the sentinel, while the only line written is line 0.
\<close>

theorem found_not_last_written:
  "found (filter_pass search_X [''X'', ''X'']) = 1 \<and>
   written_at (filter_pass search_X [''X'', ''X'']) = [0] \<and>
   output_buf (filter_pass search_X [''X'', ''X'']) = [''X'']"
  by (simp add: filter_pass_def init_state_def body_def search_def write_line_def search_X_def)

text \<open>
  C8, as the code has it. One pass calls \<open>search\<close> once on a matching line that starts a
  run (the first branch is taken) and twice on every other line, matching or not; so
  never more than twice on any line.
\<close>

theorem search_calls_per_line:
  "i < length xs \<Longrightarrow>
   count_list (searched_at (filter_pass m xs)) i = (if starts_run m xs i then 1 else 2) \<and>
   count_list (searched_at (filter_pass m xs)) i \<le> 2"
  by (simp add: count_searched_at)

theorem search_calls_per_line_witness:
  "(1::nat) < length [''X'', ''X'', ''a''] \<and>
   count_list (searched_at (filter_pass search_X [''X'', ''X'', ''a''])) 1 = 2 \<and>
   starts_run search_X [''X'', ''X'', ''a''] 0 \<and>
   count_list (searched_at (filter_pass search_X [''X'', ''X'', ''a''])) 0 = 1"
proof -
  have h0: "(0::nat) < length [''X'', ''X'', ''a'']" by simp
  have h1: "(1::nat) < length [''X'', ''X'', ''a'']" by simp
  have s0: "starts_run search_X [''X'', ''X'', ''a''] 0"
    by (simp add: starts_run_def search_X_def)
  have s1: "\<not> starts_run search_X [''X'', ''X'', ''a''] 1"
    by (simp add: starts_run_def search_X_def)
  from search_calls_per_line [OF h0, of search_X] search_calls_per_line [OF h1, of search_X] s0 s1 h1
  show ?thesis by simp
qed

text \<open>
  C8 as stated fails on the single matching line \<open>X\<close>: the predicate is true on it and
  is called once, not twice.
\<close>

theorem search_called_once_counterexample:
  "search_X ([''X''] ! 0) \<and> count_list (searched_at (filter_pass search_X [''X''])) 0 = 1"
  by (simp add: filter_pass_def init_state_def body_def search_def write_line_def search_X_def)

text \<open>
  C9. Given a matcher (the pattern compiled), \<open>main\<close> returns a state and no error, for
  every finite input; the pass writes at most one line and calls \<open>search\<close> at most twice
  per input line.
\<close>

theorem main_total:
  assumes "re_compile pattern = Inr matcher"
  shows "main re_compile input_buf pattern = Inr (filter_pass matcher input_buf) \<and>
         length (output_buf (filter_pass matcher input_buf)) \<le> length input_buf \<and>
         length (searched_at (filter_pass matcher input_buf)) \<le> 2 * length input_buf"
  using assms by (simp add: main_def length_searched_at length_output_buf)

theorem main_total_witness:
  "main (\<lambda>p. Inr search_X) [''X'', ''a'', ''X''] ''X'' =
     Inr (filter_pass search_X [''X'', ''a'', ''X'']) \<and>
   output_buf (filter_pass search_X [''X'', ''a'', ''X'']) = [''X'', ''a'', ''X'']"
proof -
  have h: "(\<lambda>p::string. (Inr search_X :: error + (string \<Rightarrow> bool))) ''X'' = Inr search_X" by simp
  have o: "output_buf (filter_pass search_X [''X'', ''a'', ''X'']) = [''X'', ''a'', ''X'']"
    by (simp add: filter_pass_def init_state_def body_def search_def write_line_def search_X_def)
  from main_total [OF h, of "[''X'', ''a'', ''X'']"] o show ?thesis by blast
qed

text \<open>
  C10. The pass is idempotent on its output: run on the lines it wrote, it writes the
  same lines; and no two adjacent lines of the output both satisfy the predicate.
\<close>

theorem filter_pass_idempotent:
  "output_buf (filter_pass m (output_buf (filter_pass m xs))) = output_buf (filter_pass m xs) \<and>
   successively (\<lambda>a b. \<not> (m a \<and> m b)) (output_buf (filter_pass m xs))"
proof -
  have "output_buf (for_loop m 0 (output_buf (filter_pass m xs)) init_state) =
        output_buf init_state @ output_buf (filter_pass m xs)"
    by (rule for_loop_successively [OF successively_output_buf]) (simp_all add: init_state_def)
  then have "output_buf (filter_pass m (output_buf (filter_pass m xs))) = output_buf (filter_pass m xs)"
    by (simp add: filter_pass_def init_state_def)
  then show ?thesis using successively_output_buf [of m xs] by (rule conjI)
qed

text \<open>
  C3, as the code has it. If two matching lines at \<open>i < j\<close> each start a run, then a
  non-matching line lies strictly between them (line \<open>j - 1\<close>), both lines are written,
  and the state in which line \<open>j\<close> is processed is the state after the first \<open>j\<close> lines,
  where the gap \<open>j - found\<close> is at least 2; an iteration on a non-matching line never
  changes \<open>found\<close>.
\<close>

theorem run_starts_both_written:
  assumes "i < j" and "j < length xs" and "starts_run m xs i" and "starts_run m xs j"
  shows "\<not> m (xs ! (j - 1)) \<and> i < j - 1 \<and>
         i \<in> set (written_at (filter_pass m xs)) \<and> j \<in> set (written_at (filter_pass m xs)) \<and>
         xs ! i \<in> set (output_buf (filter_pass m xs)) \<and> xs ! j \<in> set (output_buf (filter_pass m xs)) \<and>
         filter_pass m xs = for_loop m j (drop j xs) (filter_pass m (take j xs)) \<and>
         2 \<le> int j - found (filter_pass m (take j xs)) \<and>
         (\<forall>k line s. \<not> m line \<longrightarrow> found (body m k line s) = found s)"
proof -
  from assms have nm: "\<not> m (xs ! (j - 1))" by (auto simp: starts_run_def)
  from assms have "m (xs ! i)" by (simp add: starts_run_def)
  with nm have "i \<noteq> j - 1" by auto
  with assms(1) have sep: "i < j - 1" by arith
  have wi: "i \<in> set (written_at (filter_pass m xs))"
    using assms by (simp add: written_at_iff kept_def)
  have wj: "j \<in> set (written_at (filter_pass m xs))"
    using assms by (simp add: written_at_iff kept_def)
  from wi wj have oi: "xs ! i \<in> set (output_buf (filter_pass m xs))"
    and oj: "xs ! j \<in> set (output_buf (filter_pass m xs))"
    by (simp_all add: output_buf_eq)
  have st: "filter_pass m xs = for_loop m j (drop j xs) (filter_pass m (take j xs))"
    using assms(2) by (intro filter_pass_take) simp
  have gap: "2 \<le> int j - found (filter_pass m (take j xs))"
    using assms(2,4) by (rule gap_at_run_start)
  have keep: "\<forall>k line s. \<not> m line \<longrightarrow> found (body m k line s) = found s"
    by (simp add: body_no_match)
  from nm sep wi wj oi oj st gap keep show ?thesis by blast
qed

theorem run_starts_both_written_witness:
  "(0::nat) < 2 \<and> (2::nat) < length [''X'', ''a'', ''X''] \<and>
   starts_run search_X [''X'', ''a'', ''X''] 0 \<and> starts_run search_X [''X'', ''a'', ''X''] 2 \<and>
   0 \<in> set (written_at (filter_pass search_X [''X'', ''a'', ''X''])) \<and>
   2 \<in> set (written_at (filter_pass search_X [''X'', ''a'', ''X''])) \<and>
   2 \<le> int 2 - found (filter_pass search_X (take 2 [''X'', ''a'', ''X'']))"
proof -
  have h1: "(0::nat) < 2" by simp
  have h2: "(2::nat) < length [''X'', ''a'', ''X'']" by simp
  have h3: "starts_run search_X [''X'', ''a'', ''X''] 0"
    by (simp add: starts_run_def search_X_def)
  have h4: "starts_run search_X [''X'', ''a'', ''X''] 2"
    by (simp add: starts_run_def search_X_def)
  from run_starts_both_written [OF h1 h2 h3 h4] h1 h2 h3 h4 show ?thesis by blast
qed

text \<open>
  C3 as stated fails when the two lines do not start their runs. In
  \<open>X1, X2, a, X3, X4\<close> the matching lines 1 and 4 are separated by the non-matching
  line 2, yet neither is written, and the gap seen at line 4 is 1.
\<close>

theorem separated_matches_counterexample:
  "search_X ([''X1'', ''X2'', ''a'', ''X3'', ''X4''] ! 1) \<and>
   \<not> search_X ([''X1'', ''X2'', ''a'', ''X3'', ''X4''] ! 2) \<and>
   search_X ([''X1'', ''X2'', ''a'', ''X3'', ''X4''] ! 4) \<and>
   ''X2'' \<notin> set (output_buf (filter_pass search_X [''X1'', ''X2'', ''a'', ''X3'', ''X4''])) \<and>
   ''X4'' \<notin> set (output_buf (filter_pass search_X [''X1'', ''X2'', ''a'', ''X3'', ''X4''])) \<and>
   int 4 - found (filter_pass search_X (take 4 [''X1'', ''X2'', ''a'', ''X3'', ''X4''])) = 1"
  by (simp add: filter_pass_def init_state_def body_def search_def write_line_def search_X_def)

end
